theory Spec2Isabelle
  imports Main "HOL-Library.Multiset"
begin

section \<open>Python strings\<close>

text \<open>
  A Python \<open>str\<close> is modelled as an Isabelle \<open>string\<close>: one \<open>char\<close> per character, which
  covers the characters with code point below 256.  The classification methods of \<open>str\<close>
  follow the Unicode database on that range.
\<close>

definition TAB :: char where "TAB = CHR 0x09"
definition LF :: char where "LF = CHR 0x0A"
definition CR :: char where "CR = CHR 0x0D"

definition str_isspace :: "char \<Rightarrow> bool" where
  \<comment> \<open>\<open>str.isspace\<close>: 0x09-0x0D, 0x1C-0x20, 0x85, 0xA0.\<close>
  "str_isspace c = (let n = (of_char c :: nat) in
     (9 \<le> n \<and> n \<le> 13) \<or> (28 \<le> n \<and> n \<le> 32) \<or> n = 133 \<or> n = 160)"

definition str_isprintable :: "char \<Rightarrow> bool" where
  \<comment> \<open>\<open>str.isprintable\<close>: 0x20-0x7E, 0xA1-0xAC, 0xAE-0xFF.\<close>
  "str_isprintable c = (let n = (of_char c :: nat) in
     (32 \<le> n \<and> n \<le> 126) \<or> (161 \<le> n \<and> n \<le> 172) \<or> 174 \<le> n)"

definition str_isupper :: "char \<Rightarrow> bool" where
  \<comment> \<open>\<open>str.isupper\<close> of one character: A-Z, 0xC0-0xD6, 0xD8-0xDE.\<close>
  "str_isupper c = (let n = (of_char c :: nat) in
     (65 \<le> n \<and> n \<le> 90) \<or> (192 \<le> n \<and> n \<le> 214) \<or> (216 \<le> n \<and> n \<le> 222))"

definition str_upper_char :: "char \<Rightarrow> string" where
  \<comment> \<open>\<open>str.upper\<close> of one character: a lower-case letter moves down by 32, which clears
      bit 5 of its code point.  0xDF (sharp s) becomes \<open>SS\<close>; the upper-case forms of
      0xB5 and 0xFF lie beyond code point 255 and are not represented: both are left as they are.\<close>
  "str_upper_char c = (let n = (of_char c :: nat) in
     if (97 \<le> n \<and> n \<le> 122) \<or> (224 \<le> n \<and> n \<le> 246) \<or> (248 \<le> n \<and> n \<le> 254)
     then [case c of Char b0 b1 b2 b3 b4 b5 b6 b7 \<Rightarrow> Char b0 b1 b2 b3 b4 False b6 b7]
     else if n = 223 then ''SS'' else [c])"

definition str_upper :: "string \<Rightarrow> string" where
  "str_upper s = concat (map str_upper_char s)"

definition str_strip :: "string \<Rightarrow> string" where
  \<comment> \<open>\<open>str.strip()\<close>: leading and trailing whitespace removed.\<close>
  "str_strip s = rev (dropWhile str_isspace (rev (dropWhile str_isspace s)))"

fun str_split :: "(char \<Rightarrow> bool) \<Rightarrow> string \<Rightarrow> string list" where
  \<comment> \<open>The pieces of a string between the characters that satisfy \<open>sep\<close>, empty pieces
      kept: \<open>s.split(" ")\<close> is \<open>str_split (\<lambda>c. c = CHR '' '') s\<close>.\<close>
  "str_split sep [] = [[]]"
| "str_split sep (c # cs) =
     (if sep c then [] # str_split sep cs
      else (case str_split sep cs of
              [] \<Rightarrow> [[c]]
            | p # ps \<Rightarrow> (c # p) # ps))"

datatype error = IndexError | TypeError

section \<open>Run inner-content elements (\<open>docx/oxml/text/run.py\<close>)\<close>

text \<open>
  The children of a \<open>w:r\<close> element.  \<open>W_t\<close> carries its text and whether the
  \<open>xml:space="preserve"\<close> attribute is set; \<open>W_br\<close> carries its optional \<open>w:type\<close> attribute.
  \<open>W_other\<close> stands for a child with any other tag.
\<close>

datatype elem =
    W_rPr
  | W_t string bool
  | W_tab
  | W_br "string option"
  | W_cr
  | W_noBreakHyphen
  | W_ptab
  | W_drawing
  | W_lastRenderedPageBreak
  | W_other string

fun tag :: "elem \<Rightarrow> string" where
  "tag W_rPr = ''w:rPr''"
| "tag (W_t _ _) = ''w:t''"
| "tag W_tab = ''w:tab''"
| "tag (W_br _) = ''w:br''"
| "tag W_cr = ''w:cr''"
| "tag W_noBreakHyphen = ''w:noBreakHyphen''"
| "tag W_ptab = ''w:ptab''"
| "tag W_drawing = ''w:drawing''"
| "tag W_lastRenderedPageBreak = ''w:lastRenderedPageBreak''"
| "tag (W_other t) = t"

definition br_type :: "string option \<Rightarrow> string" where
  \<comment> \<open>\<open>CT_Br.type = OptionalAttribute("w:type", ST_BrType, default="textWrapping")\<close>\<close>
  "br_type a = (case a of None \<Rightarrow> ''textWrapping'' | Some v \<Rightarrow> v)"

fun str :: "elem \<Rightarrow> string" where
  \<comment> \<open>The \<open>__str__\<close> methods of \<open>CT_Br\<close>, \<open>CT_Cr\<close>, \<open>CT_NoBreakHyphen\<close>, \<open>CT_PTab\<close>, \<open>CT_Text\<close>
      and of \<open>w:tab\<close>; the text getter calls it on no other element.\<close>
  "str (W_br a) = (if br_type a = ''textWrapping'' then [LF] else [])"
| "str W_cr = [LF]"
| "str W_noBreakHyphen = ''-''"
| "str W_ptab = [TAB]"
| "str (W_t text _) = text"
| "str W_tab = [TAB]"
| "str _ = []"

type_synonym CT_R = "elem list"

definition rPr :: "CT_R \<Rightarrow> elem option" where
  \<comment> \<open>\<open>rPr = ZeroOrOne("w:rPr")\<close>: the first child with that tag, or \<open>None\<close>.\<close>
  "rPr self = find (\<lambda>e. tag e = ''w:rPr'') self"

definition add_t_raw :: "CT_R \<Rightarrow> string \<Rightarrow> bool \<Rightarrow> CT_R" where
  \<comment> \<open>Modelled from the spec: \<open>_add_t\<close>, generated by \<open>t = ZeroOrMore("w:t")\<close> in
      \<open>docx/oxml/xmlchemy.py\<close>; the slot is declared with no successor tags, so the new
      child is appended as the last child.\<close>
  "add_t_raw self text preserve = self @ [W_t text preserve]"

definition add_t :: "CT_R \<Rightarrow> string \<Rightarrow> CT_R" where
  "add_t self text = add_t_raw self text (length (str_strip text) < length text)"

definition add_tab :: "CT_R \<Rightarrow> CT_R" where
  \<comment> \<open>Modelled from the spec: generated by \<open>tab = ZeroOrMore("w:tab")\<close>, appended last.\<close>
  "add_tab self = self @ [W_tab]"

definition add_br :: "CT_R \<Rightarrow> CT_R" where
  \<comment> \<open>Modelled from the spec: generated by \<open>br = ZeroOrMore("w:br")\<close>, appended last,
      with no \<open>w:type\<close> attribute.\<close>
  "add_br self = self @ [W_br None]"

definition clear_content :: "CT_R \<Rightarrow> CT_R" where
  \<comment> \<open>The second definition of \<open>clear_content\<close> in the class body, the one in effect.
      \<open>remove\<close> takes out one child; all of \<open>content_child_elms\<close> are taken out.\<close>
  "clear_content self =
     (let content_child_elms = (if rPr self \<noteq> None then drop 1 self else self)
      in fold remove1 content_child_elms self)"

definition clear_content_xpath :: "CT_R \<Rightarrow> CT_R" where
  \<comment> \<open>The first definition of \<open>clear_content\<close> in the class body, shadowed by the second:
      \<open>for e in self.xpath("./*[not(self::w:rPr)]"): self.remove(e)\<close>.\<close>
  "clear_content_xpath self = fold remove1 (filter (\<lambda>e. tag e \<noteq> ''w:rPr'') self) self"

definition rPr_leading :: "CT_R \<Rightarrow> bool" where
  \<comment> \<open>The run of the data model: its \<open>w:rPr\<close> child, when it has one, is its first child.\<close>
  "rPr_leading self = (case rPr self of None \<Rightarrow> True | Some _ \<Rightarrow> tag (hd self) = ''w:rPr'')"

definition text_items :: "CT_R \<Rightarrow> elem list" where
  \<comment> \<open>\<open>self.xpath("w:br | w:cr | w:noBreakHyphen | w:ptab | w:t | w:tab")\<close>, in document order.\<close>
  "text_items self =
     filter (\<lambda>e. tag e \<in> {''w:br'', ''w:cr'', ''w:noBreakHyphen'', ''w:ptab'', ''w:t'', ''w:tab''}) self"

definition text_get :: "CT_R \<Rightarrow> string" where
  "text_get self = concat (map str (text_items self))"

subsection \<open>\<open>_RunContentAppender\<close>\<close>

record RunContentAppender =
  app_r :: CT_R
  app_bfr :: string

definition flush :: "RunContentAppender \<Rightarrow> RunContentAppender" where
  "flush self =
     (let text = app_bfr self;
          self1 = (if text \<noteq> [] then self\<lparr>app_r := add_t (app_r self) text\<rparr> else self)
      in self1\<lparr>app_bfr := []\<rparr>)"

definition add_char :: "RunContentAppender \<Rightarrow> char \<Rightarrow> RunContentAppender" where
  "add_char self c =
     (if c = TAB then (let s1 = flush self in s1\<lparr>app_r := add_tab (app_r s1)\<rparr>)
      else if c \<in> {CR, LF} then (let s1 = flush self in s1\<lparr>app_r := add_br (app_r s1)\<rparr>)
      else self\<lparr>app_bfr := app_bfr self @ [c]\<rparr>)"

definition add_text :: "RunContentAppender \<Rightarrow> string \<Rightarrow> RunContentAppender" where
  "add_text self text = flush (fold (\<lambda>c s. add_char s c) text self)"

definition append_to_run_from_text :: "CT_R \<Rightarrow> string \<Rightarrow> CT_R" where
  "append_to_run_from_text r text = app_r (add_text \<lparr>app_r = r, app_bfr = []\<rparr> text)"

definition text_set :: "CT_R \<Rightarrow> string \<Rightarrow> CT_R" where
  "text_set self text = append_to_run_from_text (clear_content self) text"

definition encode :: "string \<Rightarrow> elem list" where
  \<comment> \<open>The atom sequence the appender writes into a run with no content.\<close>
  "encode s = append_to_run_from_text [] s"

section \<open>The element tree around a run\<close>

text \<open>
  \<open>mark_comment_start\<close> and \<open>mark_comment_end\<close> insert new siblings next to a run that the
  caller holds by reference, so the tree is a store: every element has a reference, and the
  store gives its tag, its \<open>w:id\<close> attribute, its children in document order and its parent.
\<close>

type_synonym ref = nat

record tree =
  tagOf :: "ref \<Rightarrow> string"
  idOf :: "ref \<Rightarrow> int option"
  kids :: "ref \<Rightarrow> ref list"
  parentOf :: "ref \<Rightarrow> ref option"
  nextRef :: ref

definition OxmlElement :: "string \<Rightarrow> tree \<Rightarrow> ref \<times> tree" where
  \<comment> \<open>Modelled from the spec: \<open>OxmlElement\<close> of \<open>docx/oxml/parser.py\<close> makes a new
      element node with the given tag, no attribute, no child and no parent.\<close>
  "OxmlElement nsptag t =
     (let n = nextRef t
      in (n, t\<lparr>tagOf := (tagOf t)(n := nsptag), idOf := (idOf t)(n := None),
               kids := (kids t)(n := []), parentOf := (parentOf t)(n := None),
               nextRef := Suc n\<rparr>))"

definition set_id :: "ref \<Rightarrow> int \<Rightarrow> tree \<Rightarrow> tree" where
  \<comment> \<open>Modelled from the spec: \<open>e._id = _id\<close>; the markers and the reference carry the
      comment id in their \<open>w:id\<close> attribute.\<close>
  "set_id e i t = t\<lparr>idOf := (idOf t)(e := Some i)\<rparr>"

definition insert_before :: "ref \<Rightarrow> ref \<Rightarrow> ref list \<Rightarrow> ref list" where
  "insert_before x new cs = takeWhile (\<lambda>y. y \<noteq> x) cs @ new # dropWhile (\<lambda>y. y \<noteq> x) cs"

definition insert_after :: "ref \<Rightarrow> ref \<Rightarrow> ref list \<Rightarrow> ref list" where
  "insert_after x new cs =
     takeWhile (\<lambda>y. y \<noteq> x) cs @
       (case dropWhile (\<lambda>y. y \<noteq> x) cs of [] \<Rightarrow> [new] | y # ys \<Rightarrow> y # new # ys)"

definition addprevious :: "ref \<Rightarrow> ref \<Rightarrow> tree \<Rightarrow> error + tree" where
  \<comment> \<open>lxml's \<open>self.addprevious(new)\<close>: \<open>new\<close> becomes the sibling directly before \<open>self\<close>;
      a root element cannot get an element as a sibling (\<open>TypeError\<close>).\<close>
  "addprevious self new t =
     (case parentOf t self of
        None \<Rightarrow> Inl TypeError
      | Some p \<Rightarrow> Inr (t\<lparr>kids := (kids t)(p := insert_before self new (kids t p)),
                         parentOf := (parentOf t)(new := Some p)\<rparr>))"

definition addnext :: "ref \<Rightarrow> ref \<Rightarrow> tree \<Rightarrow> error + tree" where
  \<comment> \<open>lxml's \<open>self.addnext(new)\<close>: \<open>new\<close> becomes the sibling directly after \<open>self\<close>.\<close>
  "addnext self new t =
     (case parentOf t self of
        None \<Rightarrow> Inl TypeError
      | Some p \<Rightarrow> Inr (t\<lparr>kids := (kids t)(p := insert_after self new (kids t p)),
                         parentOf := (parentOf t)(new := Some p)\<rparr>))"

definition append_child :: "ref \<Rightarrow> ref \<Rightarrow> tree \<Rightarrow> tree" where
  \<comment> \<open>lxml's \<open>self.append(child)\<close>\<close>
  "append_child self child t =
     t\<lparr>kids := (kids t)(self := kids t self @ [child]),
       parentOf := (parentOf t)(child := Some self)\<rparr>"

definition mark_comment_start :: "ref \<Rightarrow> int \<Rightarrow> tree \<Rightarrow> error + tree" where
  "mark_comment_start self cid t =
     (let (comm_start, t1) = OxmlElement ''w:commentRangeStart'' t;
          t2 = set_id comm_start cid t1
      in addprevious self comm_start t2)"

definition mark_comment_end :: "ref \<Rightarrow> int \<Rightarrow> tree \<Rightarrow> error + tree" where
  "mark_comment_end self cid t =
     (let (comm_end, t1) = OxmlElement ''w:commentRangeEnd'' t;
          t2 = set_id comm_end cid t1
      in case addnext self comm_end t2 of
           Inl e \<Rightarrow> Inl e
         | Inr t3 \<Rightarrow>
            (let (reference, t4) = OxmlElement ''w:commentReference'' t3;
                 t5 = set_id reference cid t4;
                 (ref_run_elem, t6) = OxmlElement ''w:r'' t5;
                 t7 = append_child ref_run_elem reference t6
             in addnext comm_end ref_run_elem t7))"

definition link_comment :: "ref \<Rightarrow> int \<Rightarrow> tree \<Rightarrow> error + tree" where
  "link_comment self cid t =
     (case mark_comment_start self cid t of
        Inl e \<Rightarrow> Inl e
      | Inr t1 \<Rightarrow> mark_comment_end self cid t1)"

definition index_of :: "ref \<Rightarrow> ref list \<Rightarrow> nat" where
  \<comment> \<open>The document-order index of a child among its siblings.\<close>
  "index_of x cs = length (takeWhile (\<lambda>y. y \<noteq> x) cs)"

fun directly_before :: "ref \<Rightarrow> ref \<Rightarrow> ref list \<Rightarrow> bool" where
  \<comment> \<open>\<open>x\<close> is a sibling with \<open>y\<close> as its next sibling.\<close>
  "directly_before x y (a # b # cs) = ((a = x \<and> b = y) \<or> directly_before x y (b # cs))"
| "directly_before x y _ = False"

section \<open>\<open>Document.add_comment\<close> (\<open>docx/document.py\<close>)\<close>

definition upper :: "string \<Rightarrow> string" where
  \<comment> \<open>\<open>def upper(n): return "".join([c for c in n if c.isupper()])\<close>\<close>
  "upper n = filter str_isupper n"

fun first_chars :: "string list \<Rightarrow> error + string" where
  \<comment> \<open>\<open>[t[0] for t in ts]\<close>: \<open>t[0]\<close> raises \<open>IndexError\<close> on an empty string.\<close>
  "first_chars [] = Inr []"
| "first_chars (t # ts) =
     (case t of
        [] \<Rightarrow> Inl IndexError
      | c # _ \<Rightarrow> (case first_chars ts of Inl e \<Rightarrow> Inl e | Inr cs \<Rightarrow> Inr (c # cs)))"

definition splitter :: "string \<Rightarrow> error + string" where
  \<comment> \<open>\<open>def splitter(n): return "".join([t[0] for t in n.split(" ")]).upper()\<close>\<close>
  "splitter n =
     (case first_chars (str_split (\<lambda>c. c = CHR '' '') n) of
        Inl e \<Rightarrow> Inl e
      | Inr cs \<Rightarrow> Inr (str_upper cs))"

definition derive_initials :: "string \<Rightarrow> error + string" where
  \<comment> \<open>The body of \<open>if initials is None:\<close> in \<open>Document.add_comment\<close>.\<close>
  "derive_initials author =
     (let initials = upper author
      in if initials = [] then splitter author else Inr initials)"

definition whitespace_tokens :: "string \<Rightarrow> string list" where
  \<comment> \<open>The whitespace-separated tokens of a string, in the specification's words.\<close>
  "whitespace_tokens s = filter (\<lambda>t. t \<noteq> []) (str_split str_isspace s)"

definition deriveInitials_spec :: "string \<Rightarrow> string" where
  \<comment> \<open>The specification's rule: all upper-case letters of \<open>author\<close>; if there is none, the
      first character of each whitespace-separated token, upper-cased.\<close>
  "deriveInitials_spec author =
     (let u = filter str_isupper author
      in if u \<noteq> [] then u else str_upper (map hd (whitespace_tokens author)))"

record comment =
  comment_id :: int
  comment_author :: string
  comment_initials :: string
  comment_date :: string
  comment_text :: string

definition add_comment ::
  "tree \<Rightarrow> int \<Rightarrow> ref \<Rightarrow> ref \<Rightarrow> string \<Rightarrow> string \<Rightarrow> string \<Rightarrow> string option
     \<Rightarrow> error + (comment \<times> tree)" where
  \<comment> \<open>\<open>Document.add_comment(start_run, end_run, author, dtime, comment_text, initials)\<close> on
      the tree \<open>t\<close>.  The comments part is not among the sources: the id it gives the new
      comment is the parameter \<open>new_id\<close>.\<close>
  "add_comment t new_id start_run end_run author dtime text initials =
     (case (case initials of None \<Rightarrow> derive_initials author | Some i \<Rightarrow> Inr i) of
        Inl e \<Rightarrow> Inl e
      | Inr ini \<Rightarrow>
         (let c = \<lparr>comment_id = new_id, comment_author = author, comment_initials = ini,
                   comment_date = dtime, comment_text = text\<rparr>
          in case mark_comment_start start_run (comment_id c) t of
               Inl e \<Rightarrow> Inl e
             | Inr t1 \<Rightarrow>
                (case mark_comment_end end_run (comment_id c) t1 of
                   Inl e \<Rightarrow> Inl e
                 | Inr t2 \<Rightarrow> Inr (c, t2))))"

definition siblings_after :: "error + (comment \<times> tree) \<Rightarrow> ref \<Rightarrow> error + ref list" where
  \<comment> \<open>The children of \<open>p\<close> in the tree that \<open>add_comment\<close> leaves, or its error.\<close>
  "siblings_after res p = (case res of Inl e \<Rightarrow> Inl e | Inr ct \<Rightarrow> Inr (kids (snd ct) p))"

definition example_tree :: tree where
  \<comment> \<open>Two paragraphs, 0 and 3: the first with the runs 1 and 2, the second with the run 4.\<close>
  "example_tree =
     \<lparr>tagOf = (\<lambda>_. [])(0 := ''w:p'', 1 := ''w:r'', 2 := ''w:r'', 3 := ''w:p'', 4 := ''w:r''),
      idOf = (\<lambda>_. None),
      kids = (\<lambda>_. [])(0 := [1, 2], 3 := [4]),
      parentOf = (\<lambda>_. None)(1 := Some 0, 2 := Some 0, 4 := Some 3),
      nextRef = 5\<rparr>"

section \<open>\<open>Document.fudge_list_markers\<close> (\<open>docx/document.py\<close>)\<close>

text \<open>
  What the method reads of a \<open>w:numPr\<close> element: for each \<open>w:numId\<close> and each \<open>w:ilvl\<close>
  descendant, in document order, the values of its attributes.  What it reads and writes of a
  paragraph: its text, and its \<open>w:numPr\<close> descendants.
\<close>

record numPr =
  numId_elems :: "string list list"
  ilvl_elems :: "string list list"

record Paragraph =
  par_text :: string
  par_numPr :: "numPr list"

definition xpath_numPr :: "numPr \<Rightarrow> string \<Rightarrow> string list list" where
  "xpath_numPr x pth =
     (if pth = ''.//w:numId'' then numId_elems x
      else if pth = ''.//w:ilvl'' then ilvl_elems x
      else [])"

definition get :: "string \<Rightarrow> numPr \<Rightarrow> error + string" where
  \<comment> \<open>\<open>get = lambda pth, x: x.xpath(pth)[0].attrib.values()[0]\<close>\<close>
  "get pth x =
     (case xpath_numPr x pth of
        [] \<Rightarrow> Inl IndexError
      | e # _ \<Rightarrow> (case e of [] \<Rightarrow> Inl IndexError | v # _ \<Rightarrow> Inr v))"

fun para_num_groups :: "numPr list list \<Rightarrow> error + (string \<times> string) option list" where
  \<comment> \<open>\<open>[(get(".//w:numId", p[0]), get(".//w:ilvl", p[0])) if p else None for p in paras_numPr]\<close>\<close>
  "para_num_groups [] = Inr []"
| "para_num_groups (p # ps) =
     (case (case p of
              [] \<Rightarrow> Inr None
            | p0 # _ \<Rightarrow>
               (case get ''.//w:numId'' p0 of
                  Inl e \<Rightarrow> Inl e
                | Inr a \<Rightarrow> (case get ''.//w:ilvl'' p0 of
                              Inl e \<Rightarrow> Inl e
                            | Inr b \<Rightarrow> Inr (Some (a, b))))) of
        Inl e \<Rightarrow> Inl e
      | Inr g \<Rightarrow> (case para_num_groups ps of Inl e \<Rightarrow> Inl e | Inr gs \<Rightarrow> Inr (g # gs)))"

fun para_nums ::
  "(string \<times> string \<rightharpoonup> int) \<Rightarrow> (string \<times> string) option list \<Rightarrow> int option list" where
  \<comment> \<open>The loop over \<open>para_num_groups\<close> that counts each enumeration in \<open>enumerations\<close>.\<close>
  "para_nums enumerations [] = []"
| "para_nums enumerations (None # gs) = None # para_nums enumerations gs"
| "para_nums enumerations (Some g # gs) =
     (let enumerations1 =
            (case enumerations g of
               Some n \<Rightarrow> enumerations(g \<mapsto> n + 1)
             | None \<Rightarrow> enumerations(g \<mapsto> 1))
      in enumerations1 g # para_nums enumerations1 gs)"

datatype pyval = PyInt int | PyStr string | PyNone

fun py_add :: "pyval \<Rightarrow> pyval \<Rightarrow> error + pyval" where
  \<comment> \<open>Python's \<open>+\<close> on the values that occur here.\<close>
  "py_add (PyInt a) (PyInt b) = Inr (PyInt (a + b))"
| "py_add (PyStr a) (PyStr b) = Inr (PyStr (a @ b))"
| "py_add _ _ = Inl TypeError"

fun overwrite :: "Paragraph list \<Rightarrow> int option list \<Rightarrow> error + Paragraph list" where
  \<comment> \<open>\<open>for par, num in zip(self.paragraphs, para_nums): ...\<close>\<close>
  "overwrite (par # pars) (num # nums) =
     (case num of
        None \<Rightarrow> (case overwrite pars nums of Inl e \<Rightarrow> Inl e | Inr ps \<Rightarrow> Inr (par # ps))
      | Some n \<Rightarrow>
         (case py_add (PyInt n) (PyStr '')'') of
            Inl e \<Rightarrow> Inl e
          | Inr v \<Rightarrow>
             (let marker = (case v of PyStr s \<Rightarrow> s | _ \<Rightarrow> []);
                  par1 = par\<lparr>par_text := marker @ '' '' @ par_text par\<rparr>
              in case overwrite pars nums of Inl e \<Rightarrow> Inl e | Inr ps \<Rightarrow> Inr (par1 # ps))))"
| "overwrite pars _ = Inr pars"

definition fudge_list_markers :: "Paragraph list \<Rightarrow> error + Paragraph list" where
  \<comment> \<open>The bare \<open>except:\<close> turns every error of the lookups into a plain \<open>return\<close>.\<close>
  "fudge_list_markers paragraphs =
     (let paras_numPr = map par_numPr paragraphs
      in case para_num_groups paras_numPr of
           Inl _ \<Rightarrow> Inr paragraphs
         | Inr groups \<Rightarrow> overwrite paragraphs (para_nums Map.empty groups))"

definition lookup_fails :: "Paragraph \<Rightarrow> bool" where
  \<comment> \<open>The paragraph has a \<open>w:numPr\<close> whose first \<open>w:numId\<close> or \<open>w:ilvl\<close> is missing or has no
      attribute.\<close>
  "lookup_fails par =
     (case par_numPr par of
        [] \<Rightarrow> False
      | p0 # _ \<Rightarrow>
         (case numId_elems p0 of [] \<Rightarrow> True | e # _ \<Rightarrow> e = []) \<or>
         (case ilvl_elems p0 of [] \<Rightarrow> True | e # _ \<Rightarrow> e = []))"


section \<open>The run content codec\<close>


lemma add_text_Nil:
  "app_r (add_text \<lparr>app_r = xs, app_bfr = b\<rparr> []) =
     xs @ (if b = [] then [] else [W_t b (length (str_strip b) < length b)])"
  by (simp add: add_text_def flush_def add_t_def add_t_raw_def Let_def)

lemma add_text_Cons:
  "add_text \<lparr>app_r = xs, app_bfr = b\<rparr> (c # s) =
     (if c = TAB then
        add_text \<lparr>app_r = xs @ (if b = [] then [] else [W_t b (length (str_strip b) < length b)]) @ [W_tab],
                  app_bfr = []\<rparr> s
      else if c = CR \<or> c = LF then
        add_text \<lparr>app_r = xs @ (if b = [] then [] else [W_t b (length (str_strip b) < length b)]) @ [W_br None],
                  app_bfr = []\<rparr> s
      else add_text \<lparr>app_r = xs, app_bfr = b @ [c]\<rparr> s)"
  by (simp add: add_text_def add_char_def flush_def add_t_def add_t_raw_def add_tab_def
      add_br_def Let_def)

lemma add_text_prefix:
  "app_r (add_text \<lparr>app_r = xs, app_bfr = b\<rparr> s) =
     xs @ app_r (add_text \<lparr>app_r = [], app_bfr = b\<rparr> s)"
proof (induction s arbitrary: xs b)
  case Nil
  show ?case by (simp add: add_text_Nil)
next
  case (Cons c s)
  note ih = Cons.IH
  show ?case
  proof (cases "c = TAB \<or> c = CR \<or> c = LF")
    case False
    then show ?thesis using ih [of xs "b @ [c]"] by (simp add: add_text_Cons)
  next
    case True
    let ?f = "if b = [] then [] else [W_t b (length (str_strip b) < length b)]"
    have a: "app_r (add_text \<lparr>app_r = xs @ ?f @ [e], app_bfr = []\<rparr> s)
          = xs @ app_r (add_text \<lparr>app_r = ?f @ [e], app_bfr = []\<rparr> s)" for e
      using ih [of "xs @ ?f @ [e]" "[]"] ih [of "?f @ [e]" "[]"] by simp
    show ?thesis
    proof (cases "c = TAB")
      case True
      then show ?thesis using a [of W_tab] by (simp add: add_text_Cons)
    next
      case False
      with True have "c = CR \<or> c = LF" by simp
      then show ?thesis using False a [of "W_br None"] by (simp add: add_text_Cons)
    qed
  qed
qed

lemma text_get_append: "text_get (xs @ ys) = text_get xs @ text_get ys"
  by (simp add: text_get_def text_items_def)

lemma chars_distinct: "TAB \<noteq> LF" "TAB \<noteq> CR" "CR \<noteq> LF"
  by (simp_all add: TAB_def LF_def CR_def)

lemma text_get_add_text:
  "CR \<notin> set s \<Longrightarrow>
   text_get (app_r (add_text \<lparr>app_r = xs, app_bfr = b\<rparr> s)) = text_get xs @ b @ s"
proof (induction s arbitrary: xs b)
  case Nil
  show ?case by (simp add: add_text_Nil text_get_append) (simp add: text_get_def text_items_def)
next
  case (Cons c s)
  have nocr: "CR \<notin> set s" and c: "c \<noteq> CR" using Cons.prems by auto
  note ih = Cons.IH [OF nocr]
  have f: "text_get (if b = [] then [] else [W_t b p]) = b" for p
    by (simp add: text_get_def text_items_def)
  show ?case
  proof (cases "c = TAB")
    case True
    then show ?thesis
      by (simp add: add_text_Cons ih text_get_append f) (simp add: text_get_def text_items_def)
  next
    case nt: False
    show ?thesis
    proof (cases "c = LF")
      case True
      then show ?thesis using nt
        by (simp add: add_text_Cons ih text_get_append f)
           (simp add: text_get_def text_items_def br_type_def)
    next
      case False
      then show ?thesis using nt c by (simp add: add_text_Cons ih)
    qed
  qed
qed

lemma not_printable_CR: "\<not> str_isprintable CR"
  by (simp add: str_isprintable_def CR_def)

lemma fold_remove1_mset: "mset (fold remove1 xs ys) = mset ys - mset xs"
  by (induction xs arbitrary: ys) (simp_all add: diff_diff_add_mset [symmetric])

lemma fold_remove1_self: "fold remove1 xs xs = []"
  using fold_remove1_mset [of xs xs] by simp

lemma fold_remove1_tl: "fold remove1 xs (x # xs) = [x]"
proof -
  have "mset (fold remove1 xs (x # xs)) = {#x#}"
    by (simp add: fold_remove1_mset)
  then show ?thesis by simp
qed

lemma strip_shorter:
  "length (str_strip t) < length t \<longleftrightarrow> t \<noteq> [] \<and> (str_isspace (hd t) \<or> str_isspace (last t))"
proof (cases "t = []")
  case True
  then show ?thesis by (simp add: str_strip_def)
next
  case False
  show ?thesis
  proof (cases "str_isspace (hd t)")
    case True
    have "length (str_strip t) \<le> length (dropWhile str_isspace t)"
      unfolding str_strip_def using length_dropWhile_le [of str_isspace "rev (dropWhile str_isspace t)"]
      by simp
    moreover have "length (dropWhile str_isspace t) < length t"
      using False True by (cases t) (simp_all add: le_imp_less_Suc length_dropWhile_le)
    ultimately show ?thesis using False True by simp
  next
    case nh: False
    then have d: "dropWhile str_isspace t = t" using False by (cases t) simp_all
    show ?thesis
    proof (cases "str_isspace (last t)")
      case True
      have "rev t \<noteq> []" using False by simp
      moreover have "str_isspace (hd (rev t))" using True False by (simp add: hd_rev)
      ultimately have "length (dropWhile str_isspace (rev t)) < length (rev t)"
        by (cases "rev t") (simp_all add: le_imp_less_Suc length_dropWhile_le)
      then show ?thesis using False True d by (simp add: str_strip_def)
    next
      case nl: False
      have "rev t \<noteq> []" using False by simp
      moreover have "\<not> str_isspace (hd (rev t))" using nl False by (simp add: hd_rev)
      ultimately have "dropWhile str_isspace (rev t) = rev t"
        by (cases "rev t") simp_all
      then show ?thesis using nh nl d by (simp add: str_strip_def)
    qed
  qed
qed

lemma clear_content_leading:
  "rPr_leading r \<Longrightarrow> clear_content r = (case rPr r of None \<Rightarrow> [] | Some _ \<Rightarrow> [hd r])"
proof (cases "rPr r")
  case None
  then show ?thesis by (simp add: clear_content_def fold_remove1_self)
next
  case (Some e)
  then have "r \<noteq> []" by (auto simp: rPr_def)
  then obtain x xs where r: "r = x # xs" by (cases r) auto
  show ?thesis using Some by (simp add: clear_content_def r fold_remove1_tl)
qed

lemma text_get_clear_content:
  assumes "rPr_leading r"
  shows "text_get (clear_content r) = []"
proof (cases "rPr r")
  case None
  then show ?thesis
    using clear_content_leading [OF assms] by (simp add: text_get_def text_items_def)
next
  case (Some e)
  then show ?thesis
    using clear_content_leading [OF assms] assms
    by (simp add: rPr_leading_def text_get_def text_items_def)
qed

text \<open>
  Claim C1.  For a string of printable characters, tabs and newlines, the text read back
  from the elements the appender writes is the string itself; the same holds for the text
  setter followed by the text getter on a run whose \<open>w:rPr\<close>, if any, is its first child.
\<close>

theorem text_roundtrip:
  assumes "\<forall>c \<in> set s. str_isprintable c \<or> c = TAB \<or> c = LF"
  shows "text_get (encode s) = s \<and> (rPr_leading r \<longrightarrow> text_get (text_set r s) = s)"
proof -
  have "CR \<notin> set s"
    using assms not_printable_CR chars_distinct by auto
  then have "text_get (app_r (add_text \<lparr>app_r = xs, app_bfr = []\<rparr> s)) = text_get xs @ s" for xs
    using text_get_add_text [of s xs "[]"] by simp
  then show ?thesis
    by (simp add: encode_def text_set_def append_to_run_from_text_def text_get_clear_content)
       (simp add: text_get_def text_items_def)
qed

theorem text_roundtrip_witness:
  "rPr_leading [W_rPr, W_t ''old'' False, W_drawing]
   \<and> encode (''a'' @ [TAB] @ ''b'' @ [LF] @ ''c'')
       = [W_t ''a'' False, W_tab, W_t ''b'' False, W_br None, W_t ''c'' False]
   \<and> text_get (encode (''a'' @ [TAB] @ ''b'' @ [LF] @ ''c'')) = ''a'' @ [TAB] @ ''b'' @ [LF] @ ''c''
   \<and> text_get (text_set [W_rPr, W_t ''old'' False, W_drawing] (''a'' @ [TAB] @ ''b'' @ [LF] @ ''c''))
       = ''a'' @ [TAB] @ ''b'' @ [LF] @ ''c''"
proof -
  have h: "\<forall>c \<in> set (''a'' @ [TAB] @ ''b'' @ [LF] @ ''c''). str_isprintable c \<or> c = TAB \<or> c = LF"
    by (simp add: str_isprintable_def)
  have w: "rPr_leading [W_rPr, W_t ''old'' False, W_drawing]"
    by (simp add: rPr_leading_def rPr_def)
  have e: "encode (''a'' @ [TAB] @ ''b'' @ [LF] @ ''c'')
       = [W_t ''a'' False, W_tab, W_t ''b'' False, W_br None, W_t ''c'' False]"
    by (simp add: encode_def append_to_run_from_text_def add_text_Cons add_text_Nil chars_distinct
        TAB_def LF_def CR_def str_strip_def str_isspace_def)
  show ?thesis
    using text_roundtrip [OF h, of "[W_rPr, W_t ''old'' False, W_drawing]"] w e by simp
qed


lemma add_text_W_t:
  "(\<forall>t p. W_t t p \<in> set xs \<longrightarrow> t \<noteq> [] \<and> p = (length (str_strip t) < length t)) \<Longrightarrow>
   W_t t p \<in> set (app_r (add_text \<lparr>app_r = xs, app_bfr = b\<rparr> s)) \<Longrightarrow>
   t \<noteq> [] \<and> p = (length (str_strip t) < length t)"
proof (induction s arbitrary: xs b)
  case Nil
  then show ?case by (auto simp: add_text_Nil split: if_splits)
next
  case (Cons c s)
  let ?f = "if b = [] then [] else [W_t b (length (str_strip b) < length b)]"
  have inv: "\<forall>t p. W_t t p \<in> set (xs @ ?f @ [e]) \<longrightarrow> t \<noteq> [] \<and> p = (length (str_strip t) < length t)"
    if "e = W_tab \<or> e = W_br None" for e
    using Cons.prems(1) that by auto
  show ?case
  proof (cases "c = TAB")
    case True
    then show ?thesis
      using Cons.IH [OF inv [of W_tab], of "[]"] Cons.prems(2) by (simp add: add_text_Cons)
  next
    case nt: False
    show ?thesis
    proof (cases "c = CR \<or> c = LF")
      case True
      then show ?thesis
        using nt Cons.IH [OF inv [of "W_br None"], of "[]"] Cons.prems(2)
        by (simp add: add_text_Cons)
    next
      case False
      then show ?thesis
        using nt Cons.IH [OF Cons.prems(1), of "b @ [c]"] Cons.prems(2)
        by (simp add: add_text_Cons)
    qed
  qed
qed

lemma encode_W_t:
  "W_t t p \<in> set (encode s) \<Longrightarrow> t \<noteq> [] \<and> p = (length (str_strip t) < length t)"
  unfolding encode_def append_to_run_from_text_def
  by (rule add_text_W_t [of "[]"]) simp_all

lemma add_text_break:
  "c = CR \<or> c = LF \<Longrightarrow>
   app_r (add_text \<lparr>app_r = [], app_bfr = bf\<rparr> (a @ c # rest)) =
     app_r (add_text \<lparr>app_r = [], app_bfr = bf\<rparr> a) @ W_br None #
       app_r (add_text \<lparr>app_r = [], app_bfr = []\<rparr> rest)"
proof (induction a arbitrary: bf)
  case Nil
  have "c \<noteq> TAB" using Nil chars_distinct by auto
  then show ?case
    using Nil add_text_prefix [of "(if bf = [] then [] else [W_t bf (length (str_strip bf) < length bf)]) @ [W_br None]" "[]" rest]
    by (simp add: add_text_Cons add_text_Nil)
next
  case (Cons x a)
  let ?f = "if bf = [] then [] else [W_t bf (length (str_strip bf) < length bf)]"
  have p: "app_r (add_text \<lparr>app_r = ?f @ [e], app_bfr = []\<rparr> s)
         = ?f @ [e] @ app_r (add_text \<lparr>app_r = [], app_bfr = []\<rparr> s)" for e s
    using add_text_prefix [of "?f @ [e]" "[]" s] by simp
  show ?case
    using Cons.IH [OF Cons.prems, of "[]"] Cons.IH [OF Cons.prems, of "bf @ [x]"]
    by (simp add: add_text_Cons p)
qed

text \<open>
  Claim C5.  Every \<open>w:t\<close> element the appender writes has \<open>xml:space="preserve"\<close> exactly
  when its text begins or ends with a whitespace character; \<open>" a "\<close> gives one \<open>w:t\<close> with
  the attribute, \<open>"a"\<close> one without.
\<close>
theorem preserve_whitespace:
  "(\<forall>t p. W_t t p \<in> set (encode s) \<longrightarrow>
       (p \<longleftrightarrow> t \<noteq> [] \<and> (str_isspace (hd t) \<or> str_isspace (last t))))
   \<and> encode '' a '' = [W_t '' a '' True]
   \<and> encode ''a'' = [W_t ''a'' False]"
proof -
  have "encode '' a '' = [W_t '' a '' True]" "encode ''a'' = [W_t ''a'' False]"
    by (simp_all add: encode_def append_to_run_from_text_def add_text_Cons add_text_Nil
        TAB_def LF_def CR_def str_strip_def str_isspace_def)
  then show ?thesis
    using encode_W_t [of _ _ s] strip_shorter by blast
qed

theorem preserve_whitespace_witness:
  "W_t ''b '' True \<in> set (encode (''a'' @ [TAB] @ ''b ''))
   \<and> str_isspace (last ''b '') \<and> \<not> str_isspace (hd ''b '')"
proof -
  have "W_t ''b '' True \<in> set (encode (''a'' @ [TAB] @ ''b ''))"
    by (simp add: encode_def append_to_run_from_text_def add_text_Cons add_text_Nil
        TAB_def LF_def CR_def str_strip_def str_isspace_def)
  then show ?thesis
    using preserve_whitespace [of "''a'' @ [TAB] @ ''b ''"] by (simp add: str_isspace_def)
qed

text \<open>
  Claim C6.  A carriage return followed by a newline is written as two consecutive \<open>w:br\<close>
  elements, between the elements of the text before the pair and those of the text after it.
\<close>
theorem crlf_two_breaks:
  "encode (a @ [CR, LF] @ b) = encode a @ [W_br None, W_br None] @ encode b"
proof -
  have "encode (a @ CR # (LF # b)) = encode a @ W_br None # encode (LF # b)"
    unfolding encode_def append_to_run_from_text_def by (rule add_text_break) simp
  moreover have "encode ([] @ LF # b) = encode [] @ W_br None # encode b"
    unfolding encode_def append_to_run_from_text_def by (rule add_text_break) simp
  moreover have "encode [] = []"
    by (simp add: encode_def append_to_run_from_text_def add_text_Nil)
  ultimately show ?thesis by simp
qed

theorem crlf_two_breaks_witness:
  "encode (''a'' @ [CR, LF] @ ''b'') = [W_t ''a'' False, W_br None, W_br None, W_t ''b'' False]"
proof -
  have "encode ''a'' = [W_t ''a'' False]" "encode ''b'' = [W_t ''b'' False]"
    by (simp_all add: encode_def append_to_run_from_text_def add_text_Cons add_text_Nil
        TAB_def LF_def CR_def str_strip_def str_isspace_def)
  then show ?thesis using crlf_two_breaks [of "''a''" "''b''"] by simp
qed

text \<open>
  Claim C7.  No \<open>w:t\<close> element the appender writes has empty text; flushing an empty buffer
  adds no element; the empty string is written as no element at all.
\<close>
theorem no_empty_text:
  "(\<forall>t p. W_t t p \<in> set (encode s) \<longrightarrow> t \<noteq> [])
   \<and> app_r (flush \<lparr>app_r = xs, app_bfr = []\<rparr>) = xs
   \<and> encode [] = []"
proof -
  have "app_r (flush \<lparr>app_r = xs, app_bfr = []\<rparr>) = xs"
    by (simp add: flush_def)
  moreover have "encode [] = []"
    by (simp add: encode_def append_to_run_from_text_def add_text_Nil)
  ultimately show ?thesis using encode_W_t [of _ _ s] by blast
qed

theorem no_empty_text_witness:
  "encode ([TAB] @ [LF] @ ''x'' @ [TAB]) = [W_tab, W_br None, W_t ''x'' False, W_tab]
   \<and> W_t [] False \<notin> set (encode ([TAB] @ [LF] @ ''x'' @ [TAB]))
   \<and> W_t [] True \<notin> set (encode ([TAB] @ [LF] @ ''x'' @ [TAB]))"
proof -
  have "encode ([TAB] @ [LF] @ ''x'' @ [TAB]) = [W_tab, W_br None, W_t ''x'' False, W_tab]"
    by (simp add: encode_def append_to_run_from_text_def add_text_Cons add_text_Nil
        TAB_def LF_def CR_def str_strip_def str_isspace_def)
  then show ?thesis using no_empty_text [of "[TAB] @ [LF] @ ''x'' @ [TAB]"] by blast
qed

text \<open>
  Claim C10.  In the text of a run a \<open>w:br\<close> counts as a newline when its \<open>w:type\<close> is absent
  or \<open>textWrapping\<close> and as nothing otherwise (page and column breaks); a \<open>w:cr\<close> always counts
  as a newline.
\<close>
theorem break_text:
  "text_get (xs @ [W_br a] @ ys) =
     text_get xs @ (if a = None \<or> a = Some ''textWrapping'' then [LF] else []) @ text_get ys
   \<and> text_get (xs @ [W_cr] @ ys) = text_get xs @ [LF] @ text_get ys
   \<and> text_get [W_br (Some ''page'')] = []
   \<and> text_get [W_br (Some ''column'')] = []"
  by (cases a) (simp_all add: text_get_def text_items_def br_type_def)

theorem break_text_witness:
  "text_get ([W_t ''a'' False] @ [W_br (Some ''page'')] @ [W_t ''b'' False, W_br None, W_cr]) = ''ab'' @ [LF, LF]"
  using break_text [of "[W_t ''a'' False]" "Some ''page''" "[W_t ''b'' False, W_br None, W_cr]"]
    break_text [of "[W_t ''b'' False]" "None" "[W_cr]"]
    break_text [of "[W_t ''b'' False, W_br None]" "None" "[]"]
  by (simp add: text_get_def text_items_def)

text \<open>
  Claim C4.  On a run whose \<open>w:rPr\<close> is not its first child, the \<open>clear_content\<close> in effect
  removes the \<open>w:rPr\<close> and keeps the first child, so the text setter leaves old content and
  no properties; the shadowed first definition keeps exactly the \<open>w:rPr\<close>.
\<close>
theorem clear_content_removes_rPr:
  "clear_content [W_t ''x'' False, W_rPr] = [W_t ''x'' False]
   \<and> text_set [W_t ''x'' False, W_rPr] ''a'' = [W_t ''x'' False, W_t ''a'' False]
   \<and> clear_content_xpath [W_t ''x'' False, W_rPr] = [W_rPr]"
  by (simp add: clear_content_def clear_content_xpath_def rPr_def text_set_def
      append_to_run_from_text_def add_text_Cons add_text_Nil
      TAB_def LF_def CR_def str_strip_def str_isspace_def)

section \<open>The comment range markers\<close>


lemma insert_before_at:
  "x \<notin> set pre \<Longrightarrow> insert_before x new (pre @ x # post) = pre @ new # x # post"
  by (simp add: insert_before_def takeWhile_append dropWhile_append)

lemma insert_after_at:
  "x \<notin> set pre \<Longrightarrow> insert_after x new (pre @ x # post) = pre @ x # new # post"
  by (simp add: insert_after_def takeWhile_append dropWhile_append)

lemma insert_after_absent:
  "x \<notin> set cs \<Longrightarrow> insert_after x new cs = cs @ [new]"
proof -
  assume a: "x \<notin> set cs"
  then have tw: "takeWhile (\<lambda>y. y \<noteq> x) cs = cs" and dw: "dropWhile (\<lambda>y. y \<noteq> x) cs = []"
    by (auto simp: takeWhile_eq_all_conv)
  show ?thesis unfolding insert_after_def tw dw by simp
qed

lemma index_of_at: "x \<notin> set pre \<Longrightarrow> index_of x (pre @ x # post) = length pre"
  by (simp add: index_of_def takeWhile_append)

lemma directly_before_intro: "directly_before x y (u @ x # y # v)"
proof (induction u)
  case Nil
  show ?case by simp
next
  case (Cons h u)
  then show ?case by (cases u) simp_all
qed

lemma directly_before_elim: "directly_before x y cs \<Longrightarrow> \<exists>u v. cs = u @ x # y # v"
proof (induction x y cs rule: directly_before.induct)
  case (1 x y a b cs)
  then consider "a = x \<and> b = y" | "directly_before x y (b # cs)" by auto
  then show ?case
  proof cases
    case 1
    then have "a # b # cs = [] @ x # y # cs" by simp
    then show ?thesis by blast
  next
    case 2
    then obtain u v where "b # cs = u @ x # y # v" using "1.IH" by auto
    then have "a # b # cs = (a # u) @ x # y # v" by simp
    then show ?thesis by blast
  qed
qed simp_all

lemma directly_before_insert_after:
  assumes "directly_before a b cs" "z \<noteq> a"
  shows "directly_before a b (insert_after z new cs)"
proof -
  obtain u v where cs: "cs = u @ a # b # v"
    using directly_before_elim [OF assms(1)] by auto
  show ?thesis
  proof (cases "z \<in> set u")
    case True
    then obtain u1 u2 where u: "u = u1 @ z # u2" "z \<notin> set u1"
      by (meson split_list_first)
    have "insert_after z new cs = u1 @ z # new # (u2 @ a # b # v)"
      using insert_after_at [OF u(2), of new "u2 @ a # b # v"] by (simp add: cs u)
    then have "insert_after z new cs = (u1 @ z # new # u2) @ a # b # v" by simp
    then show ?thesis using directly_before_intro by metis
  next
    case nu: False
    show ?thesis
    proof (cases "z = b")
      case True
      have "z \<notin> set (u @ [a])" using nu assms(2) by simp
      then have "insert_after z new ((u @ [a]) @ z # v) = (u @ [a]) @ z # new # v"
        by (rule insert_after_at)
      then have "insert_after z new cs = u @ a # b # (new # v)" by (simp add: cs True)
      then show ?thesis using directly_before_intro by metis
    next
      case nb: False
      show ?thesis
      proof (cases "z \<in> set v")
        case True
        then obtain v1 v2 where v: "v = v1 @ z # v2" "z \<notin> set v1"
          by (meson split_list_first)
        have "z \<notin> set (u @ a # b # v1)" using nu nb assms(2) v(2) by simp
        then have "insert_after z new ((u @ a # b # v1) @ z # v2) = (u @ a # b # v1) @ z # new # v2"
          by (rule insert_after_at)
        then have "insert_after z new cs = u @ a # b # (v1 @ z # new # v2)" by (simp add: cs v)
        then show ?thesis using directly_before_intro by metis
      next
        case False
        then have "z \<notin> set cs" using nu nb assms(2) by (simp add: cs)
        then have "insert_after z new cs = u @ a # b # (v @ [new])"
          by (simp add: insert_after_absent cs)
        then show ?thesis using directly_before_intro by metis
      qed
    qed
  qed
qed

lemma directly_before_insert_before:
  "x \<in> set cs \<Longrightarrow> directly_before new x (insert_before x new cs)"
proof -
  assume "x \<in> set cs"
  then obtain u v where "cs = u @ x # v" "x \<notin> set u" by (meson split_list_first)
  then show ?thesis using directly_before_intro by (simp add: insert_before_at)
qed

lemma directly_after_insert_after:
  "x \<in> set cs \<Longrightarrow> directly_before x new (insert_after x new cs)"
proof -
  assume "x \<in> set cs"
  then obtain u v where "cs = u @ x # v" "x \<notin> set u" by (meson split_list_first)
  then show ?thesis using directly_before_intro by (simp add: insert_after_at)
qed

lemma set_insert_before: "set (insert_before x new cs) = insert new (set cs)"
proof -
  have "set cs = set (takeWhile (\<lambda>y. y \<noteq> x) cs @ dropWhile (\<lambda>y. y \<noteq> x) cs)" by simp
  then show ?thesis unfolding insert_before_def by (simp only: set_append set_simps) blast
qed

lemma set_insert_after: "set (insert_after x new cs) = insert new (set cs)"
proof (cases "x \<in> set cs")
  case True
  then obtain u v where "cs = u @ x # v" "x \<notin> set u" by (meson split_list_first)
  then show ?thesis by (auto simp: insert_after_at)
next
  case False
  then show ?thesis by (simp add: insert_after_absent)
qed

lemma mark_comment_start_ok:
  assumes "parentOf t self = Some p" "self \<noteq> nextRef t" "p \<noteq> nextRef t"
  shows "\<exists>t'. mark_comment_start self cid t = Inr t'
           \<and> kids t' = (kids t)(nextRef t := [], p := insert_before self (nextRef t) (kids t p))
           \<and> parentOf t' = (parentOf t)(nextRef t := Some p)
           \<and> tagOf t' = (tagOf t)(nextRef t := ''w:commentRangeStart'')
           \<and> idOf t' = (idOf t)(nextRef t := Some cid)
           \<and> nextRef t' = Suc (nextRef t)"
  using assms
  by (simp add: mark_comment_start_def OxmlElement_def set_id_def addprevious_def Let_def)

lemma mark_comment_end_ok:
  assumes "parentOf t self = Some q" "self \<noteq> nextRef t"
    and "q \<noteq> nextRef t" "q \<noteq> Suc (nextRef t)" "q \<noteq> Suc (Suc (nextRef t))"
  shows "\<exists>t'. mark_comment_end self cid t = Inr t'
           \<and> kids t' q = insert_after (nextRef t) (Suc (Suc (nextRef t)))
                            (insert_after self (nextRef t) (kids t q))
           \<and> (\<forall>x. x \<noteq> q \<and> x < nextRef t \<longrightarrow> kids t' x = kids t x)
           \<and> kids t' (Suc (Suc (nextRef t))) = [Suc (nextRef t)]
           \<and> tagOf t' (nextRef t) = ''w:commentRangeEnd''
           \<and> idOf t' (nextRef t) = Some cid
           \<and> tagOf t' (Suc (nextRef t)) = ''w:commentReference''
           \<and> idOf t' (Suc (nextRef t)) = Some cid
           \<and> tagOf t' (Suc (Suc (nextRef t))) = ''w:r''
           \<and> (\<forall>x. x < nextRef t \<longrightarrow> tagOf t' x = tagOf t x \<and> idOf t' x = idOf t x)"
  using assms
  by (simp add: mark_comment_end_def OxmlElement_def set_id_def addnext_def append_child_def
      Let_def)

text \<open>
  Claim C2.  \<open>link_comment\<close> on a run with a parent leaves, in place of the run among its
  siblings, the new \<open>w:commentRangeStart\<close>, the run, the new \<open>w:commentRangeEnd\<close> and a new
  \<open>w:r\<close> holding the \<open>w:commentReference\<close>, all three carrying the id; the index of the start
  marker is below that of the end marker, which is below that of the reference run.
\<close>
theorem link_comment_siblings:
  assumes par: "parentOf t run = Some p"
    and ks: "kids t p = pre @ run # post"
    and dist: "distinct (kids t p)"
    and old: "\<forall>x \<in> set (kids t p). x < nextRef t"
    and pold: "p < nextRef t"
  shows "case link_comment run cid t of
           Inl e \<Rightarrow> False
         | Inr t' \<Rightarrow>
             kids t' p = pre @ [nextRef t, run, nextRef t + 1, nextRef t + 3] @ post
           \<and> tagOf t' (nextRef t) = ''w:commentRangeStart'' \<and> idOf t' (nextRef t) = Some cid
           \<and> tagOf t' (nextRef t + 1) = ''w:commentRangeEnd'' \<and> idOf t' (nextRef t + 1) = Some cid
           \<and> tagOf t' (nextRef t + 3) = ''w:r'' \<and> kids t' (nextRef t + 3) = [nextRef t + 2]
           \<and> tagOf t' (nextRef t + 2) = ''w:commentReference'' \<and> idOf t' (nextRef t + 2) = Some cid
           \<and> index_of (nextRef t) (kids t' p) < index_of (nextRef t + 1) (kids t' p)
           \<and> index_of (nextRef t + 1) (kids t' p) < index_of (nextRef t + 3) (kids t' p)"
proof -
  let ?n = "nextRef t"
  have run_old: "run < ?n" using ks old by simp
  have pre_old: "\<forall>x \<in> set pre. x < ?n" and post_old: "\<forall>x \<in> set post. x < ?n"
    using ks old by simp_all
  have run_pre: "run \<notin> set pre" using ks dist by simp
  obtain t1 where t1: "mark_comment_start run cid t = Inr t1"
    and k1: "kids t1 = (kids t)(?n := [], p := insert_before run ?n (kids t p))"
    and p1: "parentOf t1 = (parentOf t)(?n := Some p)"
    and g1: "tagOf t1 = (tagOf t)(?n := ''w:commentRangeStart'')"
    and i1: "idOf t1 = (idOf t)(?n := Some cid)"
    and n1: "nextRef t1 = Suc ?n"
    using mark_comment_start_ok [OF par, of cid] run_old pold by auto
  have k1p: "kids t1 p = pre @ ?n # run # post"
    using run_pre by (simp add: k1 ks insert_before_at)
  have par1: "parentOf t1 run = Some p" using run_old par by (simp add: p1)
  obtain t2 where t2: "mark_comment_end run cid t1 = Inr t2"
    and k2: "kids t2 p = insert_after (Suc ?n) (Suc (Suc (Suc ?n)))
                           (insert_after run (Suc ?n) (kids t1 p))"
    and r2: "kids t2 (Suc (Suc (Suc ?n))) = [Suc (Suc ?n)]"
    and g2: "tagOf t2 (Suc ?n) = ''w:commentRangeEnd''" "idOf t2 (Suc ?n) = Some cid"
            "tagOf t2 (Suc (Suc ?n)) = ''w:commentReference''" "idOf t2 (Suc (Suc ?n)) = Some cid"
            "tagOf t2 (Suc (Suc (Suc ?n))) = ''w:r''"
    and o2: "\<forall>x. x < Suc ?n \<longrightarrow> tagOf t2 x = tagOf t1 x \<and> idOf t2 x = idOf t1 x"
    using mark_comment_end_ok [OF par1, of cid] run_old pold by (auto simp: n1)
  have a: "insert_after run (Suc ?n) ((pre @ [?n]) @ run # post) = (pre @ [?n]) @ run # Suc ?n # post"
    by (rule insert_after_at) (use run_pre run_old in auto)
  have b: "insert_after (Suc ?n) (Suc (Suc (Suc ?n))) ((pre @ [?n, run]) @ Suc ?n # post)
         = (pre @ [?n, run]) @ Suc ?n # Suc (Suc (Suc ?n)) # post"
    by (rule insert_after_at) (use pre_old run_old in auto)
  have k2p: "kids t2 p = pre @ [?n, run, Suc ?n, Suc (Suc (Suc ?n))] @ post"
    using a b by (simp add: k2 k1p)
  have ix1: "index_of ?n (pre @ ?n # [run, Suc ?n, Suc (Suc (Suc ?n))] @ post) = length pre"
    by (rule index_of_at) (use pre_old in auto)
  have ix2: "index_of (Suc ?n) ((pre @ [?n, run]) @ Suc ?n # [Suc (Suc (Suc ?n))] @ post)
           = length (pre @ [?n, run])"
    by (rule index_of_at) (use pre_old run_old in auto)
  have ix3: "index_of (Suc (Suc (Suc ?n))) ((pre @ [?n, run, Suc ?n]) @ Suc (Suc (Suc ?n)) # post)
           = length (pre @ [?n, run, Suc ?n])"
    by (rule index_of_at) (use pre_old run_old in auto)
  have tg: "tagOf t2 ?n = ''w:commentRangeStart''" "idOf t2 ?n = Some cid"
    using o2 by (simp_all add: g1 i1)
  have "link_comment run cid t = Inr t2" by (simp add: link_comment_def t1 t2)
  then show ?thesis
    using k2p r2 g2 tg ix1 ix2 ix3 by (simp add: numeral_3_eq_3 numeral_2_eq_2)
qed

theorem link_comment_siblings_witness:
  "parentOf example_tree 2 = Some 0 \<and> kids example_tree 0 = [1] @ 2 # []
   \<and> (case link_comment 2 7 example_tree of Inl e \<Rightarrow> False
       | Inr t' \<Rightarrow> kids t' 0 = [1, 5, 2, 6, 8] \<and> kids t' 8 = [7] \<and> idOf t' 5 = Some 7)"
proof -
  have h: "parentOf example_tree 2 = Some 0" "kids example_tree 0 = [1] @ 2 # []"
    "distinct (kids example_tree 0)"
    "\<forall>x \<in> set (kids example_tree 0). x < nextRef example_tree" "0 < nextRef example_tree"
    by (simp_all add: example_tree_def)
  have n: "nextRef example_tree = 5" by (simp add: example_tree_def)
  show ?thesis
    using link_comment_siblings [OF h, of 7] h(1,2)
    by (simp add: n split: sum.splits)
qed

lemma index_of_order_split:
  assumes x: "x \<in> set cs" and y: "y \<in> set cs" and lt: "index_of x cs < index_of y cs"
  shows "\<exists>a b c. cs = a @ x # b @ y # c \<and> x \<notin> set a \<and> y \<notin> set a \<and> y \<noteq> x \<and> y \<notin> set b"
proof -
  obtain a r where cs: "cs = a @ x # r" and xa: "x \<notin> set a"
    using x by (meson split_list_first)
  have ix: "index_of x cs = length a" using xa by (simp add: cs index_of_at)
  have ne: "y \<noteq> x" using lt by auto
  have ya: "y \<notin> set a"
  proof
    assume "y \<in> set a"
    then obtain a1 a2 where a: "a = a1 @ y # a2" and "y \<notin> set a1"
      by (meson split_list_first)
    then have "index_of y (a1 @ y # (a2 @ x # r)) = length a1" by (simp add: index_of_at)
    then have "index_of y cs = length a1" by (simp add: cs a)
    then show False using lt ix a by simp
  qed
  have "y \<in> set r" using y ya ne by (simp add: cs)
  then obtain b c where r: "r = b @ y # c" and yb: "y \<notin> set b"
    by (meson split_list_first)
  show ?thesis using cs r xa ya ne yb by blast
qed

text \<open>
  Claim C3, as amended.  \<open>Document.add_comment\<close> checks neither the order of the two runs nor
  that they have the same parent.  Whenever each run has a parent and the initials are given
  or can be derived from the author, it succeeds: the start marker is directly before the
  start run, the end marker directly after the end run and the new reference run directly
  after the end marker; the markers and the reference, the only child of the reference run,
  carry the id of the comment.  When the end run precedes the start run under one parent,
  the end marker and the reference run precede the start marker.  When the parents differ,
  the start marker is added under the parent of the start run, the end marker and the
  reference run under the parent of the end run.
\<close>

theorem add_comment_unchecked:
  assumes ps: "parentOf t start_run = Some p" and ms: "start_run \<in> set (kids t p)"
    and pe: "parentOf t end_run = Some q" and me: "end_run \<in> set (kids t q)"
    and old: "\<forall>x \<in> set (kids t p) \<union> set (kids t q). x < nextRef t"
    and pold: "p < nextRef t" and qold: "q < nextRef t"
    and ini: "(case initials of None \<Rightarrow> derive_initials author | Some i \<Rightarrow> Inr i) = Inr ini"
  shows "case add_comment t new_id start_run end_run author dtime text initials of
           Inl e \<Rightarrow> False
         | Inr ct \<Rightarrow>
             comment_id (fst ct) = new_id \<and> comment_initials (fst ct) = ini
           \<and> directly_before (nextRef t) start_run (kids (snd ct) p)
           \<and> directly_before end_run (nextRef t + 1) (kids (snd ct) q)
           \<and> directly_before (nextRef t + 1) (nextRef t + 3) (kids (snd ct) q)
           \<and> tagOf (snd ct) (nextRef t) = ''w:commentRangeStart''
           \<and> idOf (snd ct) (nextRef t) = Some new_id
           \<and> tagOf (snd ct) (nextRef t + 1) = ''w:commentRangeEnd''
           \<and> idOf (snd ct) (nextRef t + 1) = Some new_id
           \<and> tagOf (snd ct) (nextRef t + 3) = ''w:r''
           \<and> kids (snd ct) (nextRef t + 3) = [nextRef t + 2]
           \<and> tagOf (snd ct) (nextRef t + 2) = ''w:commentReference''
           \<and> idOf (snd ct) (nextRef t + 2) = Some new_id
           \<and> (p = q \<and> index_of end_run (kids t p) < index_of start_run (kids t p) \<longrightarrow>
                 index_of (nextRef t + 1) (kids (snd ct) p) < index_of (nextRef t + 3) (kids (snd ct) p)
               \<and> index_of (nextRef t + 3) (kids (snd ct) p) < index_of (nextRef t) (kids (snd ct) p))
           \<and> (p \<noteq> q \<longrightarrow>
                 set (kids (snd ct) p) = insert (nextRef t) (set (kids t p))
               \<and> set (kids (snd ct) q) = insert (nextRef t + 1) (insert (nextRef t + 3) (set (kids t q))))"
proof -
  let ?n = "nextRef t"
  have s_old: "start_run < ?n" and e_old: "end_run < ?n" using ms me old by auto
  obtain t1 where t1: "mark_comment_start start_run new_id t = Inr t1"
    and k1: "kids t1 = (kids t)(?n := [], p := insert_before start_run ?n (kids t p))"
    and p1: "parentOf t1 = (parentOf t)(?n := Some p)"
    and g1: "tagOf t1 = (tagOf t)(?n := ''w:commentRangeStart'')"
    and i1: "idOf t1 = (idOf t)(?n := Some new_id)"
    and n1: "nextRef t1 = Suc ?n"
    using mark_comment_start_ok [OF ps, of new_id] s_old pold by auto
  have k1p: "kids t1 p = insert_before start_run ?n (kids t p)" by (simp add: k1)
  have k1q: "p \<noteq> q \<Longrightarrow> kids t1 q = kids t q" using qold by (simp add: k1)
  have d1: "directly_before ?n start_run (kids t1 p)"
    using directly_before_insert_before [OF ms] by (simp add: k1p)
  have m1q: "end_run \<in> set (kids t1 q)"
    using me qold by (cases "q = p") (auto simp: k1 set_insert_before)
  have par1: "parentOf t1 end_run = Some q" using e_old pe by (simp add: p1)
  obtain t2 where t2: "mark_comment_end end_run new_id t1 = Inr t2"
    and k2: "kids t2 q = insert_after (Suc ?n) (Suc (Suc (Suc ?n)))
                           (insert_after end_run (Suc ?n) (kids t1 q))"
    and u2: "\<forall>x. x \<noteq> q \<and> x < Suc ?n \<longrightarrow> kids t2 x = kids t1 x"
    and r2: "kids t2 (Suc (Suc (Suc ?n))) = [Suc (Suc ?n)]"
    and g2: "tagOf t2 (Suc ?n) = ''w:commentRangeEnd''" "idOf t2 (Suc ?n) = Some new_id"
            "tagOf t2 (Suc (Suc ?n)) = ''w:commentReference''" "idOf t2 (Suc (Suc ?n)) = Some new_id"
            "tagOf t2 (Suc (Suc (Suc ?n))) = ''w:r''"
    and o2: "\<forall>x. x < Suc ?n \<longrightarrow> tagOf t2 x = tagOf t1 x \<and> idOf t2 x = idOf t1 x"
    using mark_comment_end_ok [OF par1, of new_id] e_old qold by (auto simp: n1)
  have a: "directly_before end_run (Suc ?n) (insert_after end_run (Suc ?n) (kids t1 q))"
    by (rule directly_after_insert_after [OF m1q])
  have dq1: "directly_before end_run (Suc ?n) (kids t2 q)"
    unfolding k2 by (rule directly_before_insert_after [OF a]) (use e_old in simp)
  have dq2: "directly_before (Suc ?n) (Suc (Suc (Suc ?n))) (kids t2 q)"
    unfolding k2 by (rule directly_after_insert_after) (simp add: set_insert_after)
  have dp: "directly_before ?n start_run (kids t2 p)"
  proof (cases "p = q")
    case True
    have "directly_before ?n start_run (insert_after end_run (Suc ?n) (kids t1 q))"
      by (rule directly_before_insert_after) (use d1 True e_old in auto)
    then show ?thesis
      unfolding True k2 by (rule directly_before_insert_after) simp
  next
    case False
    then show ?thesis using u2 pold d1 by simp
  qed
  have tg: "tagOf t2 ?n = ''w:commentRangeStart''" "idOf t2 ?n = Some new_id"
    using o2 by (simp_all add: g1 i1)
  have order: "index_of (Suc ?n) (kids t2 p) < index_of (Suc (Suc (Suc ?n))) (kids t2 p)
             \<and> index_of (Suc (Suc (Suc ?n))) (kids t2 p) < index_of ?n (kids t2 p)"
    if pq: "p = q" and lt: "index_of end_run (kids t p) < index_of start_run (kids t p)"
  proof -
    have me': "end_run \<in> set (kids t p)" using me pq by simp
    obtain a b c where cs: "kids t p = a @ end_run # b @ start_run # c"
      and ea: "end_run \<notin> set a" and sa: "start_run \<notin> set a"
      and ne: "start_run \<noteq> end_run" and sb: "start_run \<notin> set b"
      using index_of_order_split [OF me' ms lt] by blast
    have olds: "\<forall>x \<in> set a \<union> set b. x < ?n" using old cs by auto
    have fresh: "m \<notin> set a \<and> m \<notin> set b" if "?n \<le> m" for m
    proof -
      have "m \<in> set a \<union> set b \<Longrightarrow> m < ?n" using olds by blast
      then show ?thesis using that by auto
    qed
    note fr = fresh [of ?n] fresh [of "Suc ?n"] fresh [of "Suc (Suc (Suc ?n))"]
    have "insert_before start_run ?n ((a @ end_run # b) @ start_run # c)
            = (a @ end_run # b) @ ?n # start_run # c"
      by (rule insert_before_at) (use sa ne sb in auto)
    then have l1: "kids t1 p = a @ end_run # (b @ ?n # start_run # c)" by (simp add: k1p cs)
    have l2: "insert_after end_run (Suc ?n) (a @ end_run # (b @ ?n # start_run # c))
            = a @ end_run # Suc ?n # (b @ ?n # start_run # c)"
      by (rule insert_after_at [OF ea])
    have "insert_after (Suc ?n) (Suc (Suc (Suc ?n))) ((a @ [end_run]) @ Suc ?n # (b @ ?n # start_run # c))
            = (a @ [end_run]) @ Suc ?n # Suc (Suc (Suc ?n)) # (b @ ?n # start_run # c)"
      by (rule insert_after_at) (use fr e_old in auto)
    then have l3: "kids t2 p = a @ [end_run, Suc ?n, Suc (Suc (Suc ?n))] @ b @ [?n, start_run] @ c"
      using l1 l2 pq by (simp add: k2)
    have x1: "index_of (Suc ?n) ((a @ [end_run]) @ Suc ?n # ([Suc (Suc (Suc ?n))] @ b @ [?n, start_run] @ c))
            = length (a @ [end_run])"
      by (rule index_of_at) (use fr e_old in auto)
    have x2: "index_of (Suc (Suc (Suc ?n))) ((a @ [end_run, Suc ?n]) @ Suc (Suc (Suc ?n)) # (b @ [?n, start_run] @ c))
            = length (a @ [end_run, Suc ?n])"
      by (rule index_of_at) (use fr e_old in auto)
    have x3: "index_of ?n ((a @ [end_run, Suc ?n, Suc (Suc (Suc ?n))] @ b) @ ?n # ([start_run] @ c))
            = length (a @ [end_run, Suc ?n, Suc (Suc (Suc ?n))] @ b)"
      by (rule index_of_at) (use fr e_old in auto)
    show ?thesis using x1 x2 x3 by (simp add: l3)
  qed
  have apart: "set (kids t2 p) = insert ?n (set (kids t p))
             \<and> set (kids t2 q) = insert (Suc ?n) (insert (Suc (Suc (Suc ?n))) (set (kids t q)))"
    if pq: "p \<noteq> q"
  proof -
    have "kids t2 p = kids t1 p" using u2 pold pq by simp
    then have "set (kids t2 p) = insert ?n (set (kids t p))" by (simp add: k1p set_insert_before)
    moreover have "set (kids t2 q) = insert (Suc ?n) (insert (Suc (Suc (Suc ?n))) (set (kids t q)))"
      using k1q [OF pq] by (auto simp: k2 set_insert_after)
    ultimately show ?thesis by simp
  qed
  have res: "add_comment t new_id start_run end_run author dtime text initials
    = Inr (\<lparr>comment_id = new_id, comment_author = author, comment_initials = ini,
              comment_date = dtime, comment_text = text\<rparr>, t2)"
    using ini by (simp add: add_comment_def t1 t2)
  have order': "p = q \<and> index_of end_run (kids t p) < index_of start_run (kids t p) \<longrightarrow>
                 index_of (Suc ?n) (kids t2 p) < index_of (Suc (Suc (Suc ?n))) (kids t2 p)
               \<and> index_of (Suc (Suc (Suc ?n))) (kids t2 p) < index_of ?n (kids t2 p)"
    using order by blast
  have apart': "p \<noteq> q \<longrightarrow>
                 set (kids t2 p) = insert ?n (set (kids t p))
               \<and> set (kids t2 q) = insert (Suc ?n) (insert (Suc (Suc (Suc ?n))) (set (kids t q)))"
    using apart by blast
  have eqs: "?n + 1 = Suc ?n" "?n + 2 = Suc (Suc ?n)" "?n + 3 = Suc (Suc (Suc ?n))"
    by simp_all
  show ?thesis
    unfolding res eqs sum.case fst_conv snd_conv
    using dp dq1 dq2 tg g2 r2 order' apart'
    by (intro conjI) (simp_all only: comment.simps)
qed

theorem add_comment_unchecked_witness:
  "siblings_after (add_comment example_tree 7 2 1 ''Ryan Mannion'' ''2024'' ''note'' (Some ''RM'')) 0
     = Inr [1, 6, 8, 5, 2]
   \<and> index_of 1 (kids example_tree 0) < index_of 2 (kids example_tree 0)
   \<and> index_of 6 [1, 6, 8, 5, 2] < index_of 8 [1, 6, 8, 5, 2]
   \<and> index_of 8 [1, 6, 8, 5, 2] < index_of 5 [1, 6, 8, 5, 2]
   \<and> siblings_after (add_comment example_tree 7 1 4 ''BlackBoiler'' ''2024'' ''note'' None) 0
     = Inr [5, 1, 2]
   \<and> siblings_after (add_comment example_tree 7 1 4 ''BlackBoiler'' ''2024'' ''note'' None) 3
     = Inr [4, 6, 8]"
proof -
  have n: "nextRef example_tree = 5" by (simp add: example_tree_def)
  have h: "parentOf example_tree 2 = Some 0" "2 \<in> set (kids example_tree 0)"
    "parentOf example_tree 1 = Some 0" "1 \<in> set (kids example_tree 0)"
    "\<forall>x \<in> set (kids example_tree 0) \<union> set (kids example_tree 0). x < nextRef example_tree"
    "0 < nextRef example_tree" "0 < nextRef example_tree"
    by (simp_all add: example_tree_def)
  have i: "(case Some ''RM'' of None \<Rightarrow> derive_initials ''Ryan Mannion'' | Some i \<Rightarrow> Inr i) = Inr ''RM''"
    by simp
  have lt: "index_of 1 (kids example_tree 0) < index_of 2 (kids example_tree 0)"
    by (simp add: example_tree_def index_of_def)
  have v: "siblings_after (add_comment example_tree 7 2 1 ''Ryan Mannion'' ''2024'' ''note'' (Some ''RM'')) 0
     = Inr [1, 6, 8, 5, 2]"
    by (simp add: siblings_after_def add_comment_def
        mark_comment_start_def mark_comment_end_def OxmlElement_def set_id_def addprevious_def
        addnext_def append_child_def insert_before_def insert_after_def example_tree_def Let_def)
  have same: "index_of 6 [1, 6, 8, 5, 2] < index_of 8 [1, 6, 8, 5, 2]
            \<and> index_of 8 [1, 6, 8, 5, 2] < index_of 5 [1, 6, 8, 5, 2]"
    using add_comment_unchecked [OF h i, of 7 "''2024''" "''note''"] lt v
    by (simp add: n siblings_after_def split: sum.splits)
  have g: "parentOf example_tree 1 = Some 0" "1 \<in> set (kids example_tree 0)"
    "parentOf example_tree 4 = Some 3" "4 \<in> set (kids example_tree 3)"
    "\<forall>x \<in> set (kids example_tree 0) \<union> set (kids example_tree 3). x < nextRef example_tree"
    "0 < nextRef example_tree" "3 < nextRef example_tree"
    by (simp_all add: example_tree_def)
  have u: "upper ''BlackBoiler'' = ''BB''" by (simp add: upper_def str_isupper_def)
  have j: "(case None of None \<Rightarrow> derive_initials ''BlackBoiler'' | Some i \<Rightarrow> Inr i) = Inr ''BB''"
    by (simp add: derive_initials_def u)
  have w: "siblings_after (add_comment example_tree 7 1 4 ''BlackBoiler'' ''2024'' ''note'' None) 0
             = Inr [5, 1, 2]
         \<and> siblings_after (add_comment example_tree 7 1 4 ''BlackBoiler'' ''2024'' ''note'' None) 3
             = Inr [4, 6, 8]"
    using j
    by (simp add: siblings_after_def add_comment_def
        mark_comment_start_def mark_comment_end_def OxmlElement_def set_id_def addprevious_def
        addnext_def append_child_def insert_before_def insert_after_def example_tree_def Let_def)
  have "case add_comment example_tree 7 1 4 ''BlackBoiler'' ''2024'' ''note'' None of
          Inl e \<Rightarrow> False | Inr ct \<Rightarrow> comment_initials (fst ct) = ''BB''"
    using add_comment_unchecked [OF g j, of 7 "''2024''" "''note''"]
    by (cases "add_comment example_tree 7 1 4 ''BlackBoiler'' ''2024'' ''note'' None") simp_all
  then show ?thesis using v lt same w by simp
qed

text \<open>
  Claim C3 as stated fails: with the end run before the start run the call succeeds and leaves
  the end marker before the start marker; with the two runs in different paragraphs it
  succeeds as well.
\<close>

theorem add_comment_no_range_error:
  "siblings_after (add_comment example_tree 7 2 1 ''Ryan Mannion'' ''2024'' ''note'' None) 0
     = Inr [1, 6, 8, 5, 2]
   \<and> index_of 6 [1, 6, 8, 5, 2] < index_of 5 [1, 6, 8, 5, 2]
   \<and> parentOf example_tree 1 = Some 0 \<and> parentOf example_tree 4 = Some 3
   \<and> siblings_after (add_comment example_tree 7 1 4 ''Ryan Mannion'' ''2024'' ''note'' None) 0
     = Inr [5, 1, 2]
   \<and> siblings_after (add_comment example_tree 7 1 4 ''Ryan Mannion'' ''2024'' ''note'' None) 3
     = Inr [4, 6, 8]"
  by (simp add: siblings_after_def add_comment_def derive_initials_def upper_def str_isupper_def
      mark_comment_start_def mark_comment_end_def OxmlElement_def set_id_def addprevious_def
      addnext_def append_child_def insert_before_def insert_after_def example_tree_def Let_def
      index_of_def)

section \<open>Initials of the comment author\<close>


lemma str_split_cong: "(\<forall>c \<in> set s. P c = Q c) \<Longrightarrow> str_split P s = str_split Q s"
  by (induction s) simp_all

lemma first_chars_nonempty: "[] \<notin> set ts \<Longrightarrow> first_chars ts = Inr (map hd ts)"
proof (induction ts)
  case Nil
  show ?case by simp
next
  case (Cons t ts)
  then show ?case by (cases t) simp_all
qed

lemma filter_nonempty: "[] \<notin> set ts \<Longrightarrow> filter (\<lambda>t. t \<noteq> []) ts = ts"
  by (induction ts) auto

lemma derive_initials_upper: "upper author = u \<Longrightarrow> u \<noteq> [] \<Longrightarrow> derive_initials author = Inr u"
  by (simp add: derive_initials_def)

lemma derive_initials_split:
  "upper author = [] \<Longrightarrow> str_split (\<lambda>c. c = CHR '' '') author = ts \<Longrightarrow> [] \<notin> set ts \<Longrightarrow>
   derive_initials author = Inr (str_upper (map hd ts))"
  by (simp add: derive_initials_def splitter_def first_chars_nonempty)

text \<open>
  Claim C8, as amended.  With no initials given, the initials are the upper-case letters of
  \<open>author\<close>; if there is none, \<open>author\<close> is split at every single space character, and the
  first characters of the pieces, all non-empty, are joined and upper-cased.  When the only
  whitespace in \<open>author\<close> is the space character, these are the first characters of its
  whitespace-separated tokens, upper-cased.  So \<open>Ryan Mannion\<close> gives \<open>RM\<close>, \<open>BlackBoiler\<close>
  gives \<open>BB\<close> and \<open>ryan mannion\<close> gives \<open>RM\<close>.
\<close>
theorem derive_initials_rule:
  assumes "upper author \<noteq> [] \<or> [] \<notin> set (str_split (\<lambda>c. c = CHR '' '') author)"
  shows "derive_initials author =
           Inr (if upper author \<noteq> [] then upper author
                else str_upper (map hd (str_split (\<lambda>c. c = CHR '' '') author)))
       \<and> ((\<forall>c \<in> set author. str_isspace c \<longrightarrow> c = CHR '' '') \<longrightarrow>
            derive_initials author = Inr (deriveInitials_spec author))
       \<and> derive_initials ''Ryan Mannion'' = Inr ''RM''
       \<and> derive_initials ''BlackBoiler'' = Inr ''BB''
       \<and> derive_initials ''ryan mannion'' = Inr ''RM''"
proof -
  let ?sp = "\<lambda>c. c = CHR '' ''"
  have code: "derive_initials author =
           Inr (if upper author \<noteq> [] then upper author else str_upper (map hd (str_split ?sp author)))"
  proof (cases "upper author = []")
    case True
    then have "[] \<notin> set (str_split ?sp author)" using assms by simp
    then show ?thesis using True derive_initials_split [OF True refl] by simp
  next
    case False
    then show ?thesis using derive_initials_upper [OF refl False] by simp
  qed
  have spec: "derive_initials author = Inr (deriveInitials_spec author)"
    if ws: "\<forall>c \<in> set author. str_isspace c \<longrightarrow> c = CHR '' ''"
  proof (cases "upper author = []")
    case False
    then show ?thesis using code by (simp add: deriveInitials_spec_def upper_def)
  next
    case True
    then have ne: "[] \<notin> set (str_split ?sp author)" using assms by simp
    have "str_isspace (CHR '' '')" by (simp add: str_isspace_def)
    then have "\<forall>c \<in> set author. str_isspace c = ?sp c" using ws by auto
    then have "str_split str_isspace author = str_split ?sp author" by (rule str_split_cong)
    then have "whitespace_tokens author = str_split ?sp author"
      by (simp add: whitespace_tokens_def filter_nonempty [OF ne])
    then show ?thesis using True code by (simp add: deriveInitials_spec_def upper_def)
  qed
  have u1: "upper ''Ryan Mannion'' = ''RM''" by (simp add: upper_def str_isupper_def)
  have u2: "upper ''BlackBoiler'' = ''BB''" by (simp add: upper_def str_isupper_def)
  have u3: "upper ''ryan mannion'' = []" by (simp add: upper_def str_isupper_def)
  have s3: "str_split ?sp ''ryan mannion'' = [''ryan'', ''mannion'']" by simp
  have r3: "str_upper (map hd [''ryan'', ''mannion'']) = ''RM''"
    by (simp add: str_upper_def str_upper_char_def)
  have ex: "derive_initials ''Ryan Mannion'' = Inr ''RM''"
    "derive_initials ''BlackBoiler'' = Inr ''BB''"
    "derive_initials ''ryan mannion'' = Inr ''RM''"
    using derive_initials_upper [OF u1] derive_initials_upper [OF u2]
      derive_initials_split [OF u3 s3] r3 by simp_all
  show ?thesis using code spec ex by blast
qed

theorem derive_initials_rule_witness:
  "derive_initials ''ada b lovelace'' = Inr ''ABL''
   \<and> deriveInitials_spec ''ada b lovelace'' = ''ABL''"
proof -
  have s: "str_split (\<lambda>c. c = CHR '' '') ''ada b lovelace'' = [''ada'', ''b'', ''lovelace'']"
    by simp
  have h: "upper ''ada b lovelace'' \<noteq> [] \<or> [] \<notin> set (str_split (\<lambda>c. c = CHR '' '') ''ada b lovelace'')"
    unfolding s by simp
  have w: "\<forall>c \<in> set ''ada b lovelace''. str_isspace c \<longrightarrow> c = CHR '' ''"
    by (simp add: str_isspace_def)
  have u: "upper ''ada b lovelace'' = []" by (simp add: upper_def str_isupper_def)
  have v: "str_upper (map hd [''ada'', ''b'', ''lovelace'']) = ''ABL''"
    by (simp add: str_upper_def str_upper_char_def)
  have "derive_initials ''ada b lovelace'' = Inr ''ABL''"
    using derive_initials_rule [OF h] u v unfolding s by simp
  moreover have "derive_initials ''ada b lovelace'' = Inr (deriveInitials_spec ''ada b lovelace'')"
    using derive_initials_rule [OF h] w by blast
  ultimately show ?thesis by simp
qed

text \<open>
  Claim C8 as stated fails: a tab separates two tokens, but the code splits at spaces only
  and takes one initial where the rule of the claim takes two.
\<close>
theorem derive_initials_not_whitespace_tokens:
  "derive_initials (''ryan'' @ [TAB] @ ''mannion'') = Inr ''R''
   \<and> deriveInitials_spec (''ryan'' @ [TAB] @ ''mannion'') = ''RM''"
proof -
  let ?a = "''ryan'' @ [TAB] @ ''mannion''"
  have u: "upper ?a = []" by (simp add: upper_def str_isupper_def TAB_def)
  have s: "str_split (\<lambda>c. c = CHR '' '') ?a = [?a]" by (simp add: TAB_def)
  have r: "str_upper (map hd [?a]) = ''R''" by (simp add: str_upper_def str_upper_char_def)
  have c: "derive_initials ?a = Inr ''R''"
    using derive_initials_split [OF u s] r by simp
  have f: "filter str_isupper ?a = []" using u by (simp add: upper_def)
  have t: "str_split str_isspace ?a = [''ryan'', ''mannion'']"
    by (simp add: str_isspace_def TAB_def)
  have r2: "str_upper (map hd [''ryan'', ''mannion'']) = ''RM''"
    by (simp add: str_upper_def str_upper_char_def)
  have "deriveInitials_spec ?a = ''RM''"
    unfolding deriveInitials_spec_def whitespace_tokens_def t f using r2 by simp
  then show ?thesis using c by simp
qed

section \<open>The list markers\<close>


lemma get_fails:
  "(\<exists>e. get ''.//w:numId'' p0 = Inl e) \<longleftrightarrow> (case numId_elems p0 of [] \<Rightarrow> True | e # _ \<Rightarrow> e = [])"
  "(\<exists>e. get ''.//w:ilvl'' p0 = Inl e) \<longleftrightarrow> (case ilvl_elems p0 of [] \<Rightarrow> True | e # _ \<Rightarrow> e = [])"
  by (simp_all add: get_def xpath_numPr_def split: list.splits)

lemma para_num_groups_head:
  "(\<exists>e. get ''.//w:numId'' p0 = Inl e) \<or> (\<exists>e. get ''.//w:ilvl'' p0 = Inl e) \<Longrightarrow>
   \<exists>e. para_num_groups ((p0 # ps) # pss) = Inl e"
proof (cases "get ''.//w:numId'' p0")
  case (Inl e)
  then show ?thesis by simp
next
  case a: (Inr a)
  assume "(\<exists>e. get ''.//w:numId'' p0 = Inl e) \<or> (\<exists>e. get ''.//w:ilvl'' p0 = Inl e)"
  then obtain e where "get ''.//w:ilvl'' p0 = Inl e" using a by auto
  then show ?thesis using a by simp
qed

lemma para_num_groups_tail:
  assumes "para_num_groups pss = Inl e"
  shows "\<exists>e'. para_num_groups (p # pss) = Inl e'"
proof (cases p)
  case Nil
  then show ?thesis using assms by simp
next
  case (Cons p0 ps)
  show ?thesis
  proof (cases "get ''.//w:numId'' p0")
    case (Inl e1)
    then show ?thesis using Cons by simp
  next
    case a: (Inr a)
    show ?thesis
    proof (cases "get ''.//w:ilvl'' p0")
      case (Inl e2)
      then show ?thesis using Cons a by simp
    next
      case (Inr b)
      then show ?thesis using Cons a assms by simp
    qed
  qed
qed

lemma para_num_groups_fails:
  "\<exists>par \<in> set paragraphs. lookup_fails par \<Longrightarrow>
   \<exists>e. para_num_groups (map par_numPr paragraphs) = Inl e"
proof (induction paragraphs)
  case Nil
  then show ?case by simp
next
  case (Cons par pars)
  show ?case
  proof (cases "lookup_fails par")
    case True
    then obtain p0 ps where p: "par_numPr par = p0 # ps"
      by (cases "par_numPr par") (simp_all add: lookup_fails_def)
    have "(\<exists>e. get ''.//w:numId'' p0 = Inl e) \<or> (\<exists>e. get ''.//w:ilvl'' p0 = Inl e)"
      using True p by (simp add: lookup_fails_def get_fails)
    then have "\<exists>e. para_num_groups ((p0 # ps) # map par_numPr pars) = Inl e"
      by (rule para_num_groups_head)
    then show ?thesis by (simp only: list.map p)
  next
    case False
    then have "\<exists>par \<in> set pars. lookup_fails par" using Cons.prems by simp
    then obtain e where "para_num_groups (map par_numPr pars) = Inl e"
      using Cons.IH by blast
    then have "\<exists>e'. para_num_groups (par_numPr par # map par_numPr pars) = Inl e'"
      by (rule para_num_groups_tail)
    then show ?thesis by (simp only: list.map)
  qed
qed

text \<open>
  Claim C9.  When a lookup of \<open>w:numId\<close> or \<open>w:ilvl\<close> fails for some paragraph,
  \<open>fudge_list_markers\<close> returns without an error and leaves every paragraph as it was.
\<close>
theorem fudge_list_markers_silent:
  assumes "\<exists>par \<in> set paragraphs. lookup_fails par"
  shows "fudge_list_markers paragraphs = Inr paragraphs"
proof -
  obtain e where "para_num_groups (map par_numPr paragraphs) = Inl e"
    using para_num_groups_fails [OF assms] by blast
  then show ?thesis by (simp add: fudge_list_markers_def)
qed

theorem fudge_list_markers_silent_witness:
  "lookup_fails \<lparr>par_text = ''b'', par_numPr = [\<lparr>numId_elems = [[''1'']], ilvl_elems = []\<rparr>]\<rparr>
   \<and> fudge_list_markers
        [\<lparr>par_text = ''a'', par_numPr = [\<lparr>numId_elems = [[''1'']], ilvl_elems = [[''0'']]\<rparr>]\<rparr>,
         \<lparr>par_text = ''b'', par_numPr = [\<lparr>numId_elems = [[''1'']], ilvl_elems = []\<rparr>]\<rparr>]
      = Inr [\<lparr>par_text = ''a'', par_numPr = [\<lparr>numId_elems = [[''1'']], ilvl_elems = [[''0'']]\<rparr>]\<rparr>,
             \<lparr>par_text = ''b'', par_numPr = [\<lparr>numId_elems = [[''1'']], ilvl_elems = []\<rparr>]\<rparr>]"
proof -
  let ?a = "\<lparr>par_text = ''a'', par_numPr = [\<lparr>numId_elems = [[''1'']], ilvl_elems = [[''0'']]\<rparr>]\<rparr>"
  let ?b = "\<lparr>par_text = ''b'', par_numPr = [\<lparr>numId_elems = [[''1'']], ilvl_elems = []\<rparr>]\<rparr>"
  have f: "lookup_fails ?b" by (simp add: lookup_fails_def)
  then have "\<exists>par \<in> set [?a, ?b]. lookup_fails par" by simp
  then have "fudge_list_markers [?a, ?b] = Inr [?a, ?b]" by (rule fudge_list_markers_silent)
  then show ?thesis using f by simp
qed

end
